theory Spec2Isabelle
  imports Main "HOL-Library.Word" "HOL-Library.Multiset"
begin

section \<open>The PlinkoGame contract: data model\<close>

text \<open>
  The ledger is the Solidity contract \<^verbatim>\<open>PlinkoGame\<close> (pragma \<^verbatim>\<open>^0.8.24\<close>).
  Its integers are \<^verbatim>\<open>uint256\<close>; from Solidity 0.8 on, \<open>+\<close>, \<open>*\<close>, \<open>++\<close> and
  \<open>--\<close> are checked: a result outside the type reverts the call with
  \<^verbatim>\<open>Panic(0x11)\<close>. Addresses are 160-bit values. The confidential score type
  \<^verbatim>\<open>euint32\<close> and its external form are 32-byte handles of the confidential
  compute library, which is not part of this repository.
\<close>

type_synonym uint256 = "256 word"
type_synonym address = "160 word"
type_synonym euint32 = "256 word"
type_synonym externalEuint32 = "256 word"
type_synonym bytes = "8 word list"

definition TURN_PRICE :: uint256 where
  "TURN_PRICE = 1000000000000000"

definition DAILY_FREE_TURNS :: uint256 where
  "DAILY_FREE_TURNS = 3"

definition SECONDS_PER_DAY :: uint256 where
  "SECONDS_PER_DAY = 86400"

record Player =
  totalScore :: euint32
  lastCheckInTime :: uint256
  availableTurns :: uint256
  gamesPlayed :: uint256

text \<open>
  The second field of \<^verbatim>\<open>LeaderboardEntry\<close> is \<^verbatim>\<open>gamesPlayed\<close> in the source; it is
  \<open>entryGamesPlayed\<close> here, apart from the field of \<open>Player\<close>.
\<close>

record LeaderboardEntry =
  playerAddress :: address
  entryGamesPlayed :: uint256

datatype event =
    CheckedIn address uint256 uint256
  | TurnsPurchased address uint256 uint256
  | GamePlayed address uint256
  | ScoreUpdated address uint256
  | Withdrawal address uint256

text \<open>
  Every way a call can revert: a failed \<^verbatim>\<open>require\<close> with its message, the
  arithmetic panic of checked \<^verbatim>\<open>uint256\<close> operations, a rejected input proof
  inside \<^verbatim>\<open>FHE.fromExternal\<close>, a failed \<^verbatim>\<open>transfer\<close>, and ether sent to
  a function that is not \<^verbatim>\<open>payable\<close>.
\<close>

datatype error =
    Require string
  | Panic
  | InvalidProof
  | TransferFailed
  | NotPayable

text \<open>
  The contract's storage (\<open>players\<close>, \<open>playerAddresses\<close>, \<open>owner\<close>), its ether
  balance \<^verbatim>\<open>address(this).balance\<close>, the log of emitted events, and the
  decryption permissions granted through \<^verbatim>\<open>FHE.allowThis\<close> and \<^verbatim>\<open>FHE.allow\<close>
  (pairs of handle and grantee). A mapping of Solidity is total: an address never
  written reads as the all-zero \<open>Player\<close>.
\<close>

record PlinkoGame =
  players :: "address \<Rightarrow> Player"
  playerAddresses :: "address list"
  owner :: address
  balance :: uint256
  events :: "event list"
  permissions :: "(euint32 \<times> address) list"

text \<open>
  What the contract takes from its surroundings: its own address, the two operations of
  the confidential compute library it calls (\<^verbatim>\<open>FHE.fromExternal\<close>, which reverts
  on an invalid proof and is \<open>None\<close> then, and \<^verbatim>\<open>FHE.add\<close>), and whether an
  address accepts a plain ether \<^verbatim>\<open>transfer\<close>.
\<close>

record Env =
  selfAddress :: address
  FHE_fromExternal :: "externalEuint32 \<Rightarrow> bytes \<Rightarrow> address \<Rightarrow> euint32 option"
  FHE_add :: "euint32 \<Rightarrow> euint32 \<Rightarrow> euint32"
  acceptsTransfer :: "address \<Rightarrow> bool"

definition zeroPlayer :: Player where
  "zeroPlayer = \<lparr>totalScore = 0, lastCheckInTime = 0, availableTurns = 0, gamesPlayed = 0\<rparr>"

text \<open>The constructor: \<^verbatim>\<open>owner = msg.sender\<close>, everything else zero.\<close>

definition constructor :: "address \<Rightarrow> PlinkoGame" where
  "constructor sender =
     \<lparr>players = (\<lambda>_. zeroPlayer), playerAddresses = [], owner = sender,
      balance = 0, events = [], permissions = []\<rparr>"

subsection \<open>Checked arithmetic\<close>

definition checked_add :: "uint256 \<Rightarrow> uint256 \<Rightarrow> error + uint256" where
  "checked_add a b = (if unat a + unat b < 2 ^ 256 then Inr (a + b) else Inl Panic)"

definition checked_mul :: "uint256 \<Rightarrow> uint256 \<Rightarrow> error + uint256" where
  "checked_mul a b = (if unat a * unat b < 2 ^ 256 then Inr (a * b) else Inl Panic)"

definition checked_dec :: "uint256 \<Rightarrow> error + uint256" where
  "checked_dec a = (if a = 0 then Inl Panic else Inr (a - 1))"

section \<open>The mutating entry points\<close>

text \<open>
  Each entry point takes the state before the call, \<^verbatim>\<open>msg.sender\<close> and what else
  it reads (\<^verbatim>\<open>block.timestamp\<close>, \<^verbatim>\<open>msg.value\<close>, its arguments), and returns
  the state after the call, or the error it reverts with.
\<close>

definition dailyCheckIn :: "PlinkoGame \<Rightarrow> address \<Rightarrow> uint256 \<Rightarrow> error + PlinkoGame" where
  "dailyCheckIn s sender now =
     (let player = players s sender in
      case checked_add (lastCheckInTime player) SECONDS_PER_DAY of
        Inl e \<Rightarrow> Inl e
      | Inr due \<Rightarrow>
          if \<not> due \<le> now then Inl (Require ''Already checked in today'')
          else
            let addrs = (if lastCheckInTime player = 0
                         then playerAddresses s @ [sender] else playerAddresses s) in
            (case checked_add (availableTurns player) DAILY_FREE_TURNS of
               Inl e \<Rightarrow> Inl e
             | Inr turns \<Rightarrow>
                 Inr (s\<lparr>players := (players s)
                           (sender := player\<lparr>availableTurns := turns, lastCheckInTime := now\<rparr>),
                        playerAddresses := addrs,
                        events := events s @ [CheckedIn sender DAILY_FREE_TURNS now]\<rparr>)))"

text \<open>
  \<^verbatim>\<open>buyTurns\<close> is payable: the attached ether is credited to the contract before
  the body runs (and returned if the call reverts). A chain holds less than \<open>2^256\<close>
  wei in all, so the sum does not wrap there.
\<close>

definition buyTurns :: "PlinkoGame \<Rightarrow> address \<Rightarrow> uint256 \<Rightarrow> uint256 \<Rightarrow> error + PlinkoGame" where
  "buyTurns s sender msg_value turnCount =
     (if \<not> turnCount > 0 then Inl (Require ''Must buy at least 1 turn'')
      else
        case checked_mul turnCount TURN_PRICE of
          Inl e \<Rightarrow> Inl e
        | Inr price \<Rightarrow>
            if msg_value \<noteq> price then Inl (Require ''Incorrect payment amount'')
            else
              let player = players s sender;
                  first = (lastCheckInTime player = 0);
                  addrs = (if first then playerAddresses s @ [sender] else playerAddresses s);
                  player1 = (if first then player\<lparr>lastCheckInTime := 1\<rparr> else player) in
              (case checked_add (availableTurns player1) turnCount of
                 Inl e \<Rightarrow> Inl e
               | Inr turns \<Rightarrow>
                   Inr (s\<lparr>players := (players s)(sender := player1\<lparr>availableTurns := turns\<rparr>),
                          playerAddresses := addrs,
                          balance := balance s + msg_value,
                          events := events s @ [TurnsPurchased sender turnCount msg_value]\<rparr>)))"

definition dropBall ::
  "Env \<Rightarrow> PlinkoGame \<Rightarrow> address \<Rightarrow> externalEuint32 \<Rightarrow> bytes \<Rightarrow> error + PlinkoGame" where
  "dropBall env s sender encryptedScore inputProof =
     (let player = players s sender in
      if \<not> availableTurns player > 0 then Inl (Require ''No turns available'')
      else
        case FHE_fromExternal env encryptedScore inputProof sender of
          None \<Rightarrow> Inl InvalidProof
        | Some score \<Rightarrow>
            let total = FHE_add env (totalScore player) score in
            (case checked_dec (availableTurns player) of
               Inl e \<Rightarrow> Inl e
             | Inr turns \<Rightarrow>
                 (case checked_add (gamesPlayed player) 1 of
                    Inl e \<Rightarrow> Inl e
                  | Inr games \<Rightarrow>
                      Inr (s\<lparr>players := (players s)
                                (sender := player\<lparr>totalScore := total, availableTurns := turns,
                                                  gamesPlayed := games\<rparr>),
                             permissions := permissions s @ [(total, selfAddress env), (total, sender)],
                             events := events s @ [GamePlayed sender turns, ScoreUpdated sender games]\<rparr>))))"

definition playTurn :: "PlinkoGame \<Rightarrow> address \<Rightarrow> error + PlinkoGame" where
  "playTurn s sender =
     (let player = players s sender in
      if \<not> availableTurns player > 0 then Inl (Require ''No turns available'')
      else
        (case checked_dec (availableTurns player) of
           Inl e \<Rightarrow> Inl e
         | Inr turns \<Rightarrow>
             (case checked_add (gamesPlayed player) 1 of
                Inl e \<Rightarrow> Inl e
              | Inr games \<Rightarrow>
                  Inr (s\<lparr>players := (players s)
                            (sender := player\<lparr>availableTurns := turns, gamesPlayed := games\<rparr>),
                         events := events s @ [GamePlayed sender turns, ScoreUpdated sender games]\<rparr>))))"

text \<open>
  The two owner-only entry points. \<^verbatim>\<open>onlyOwner\<close> runs first. The ether that
  \<^verbatim>\<open>withdraw\<close> sends leaves the contract; the balances of other accounts are
  not part of the contract's state.
\<close>

definition withdraw :: "Env \<Rightarrow> PlinkoGame \<Rightarrow> address \<Rightarrow> error + PlinkoGame" where
  "withdraw env s sender =
     (if sender \<noteq> owner s then Inl (Require ''Only owner can call this function'')
      else
        let bal = balance s in
        if \<not> bal > 0 then Inl (Require ''No balance to withdraw'')
        else if \<not> acceptsTransfer env (owner s) then Inl TransferFailed
        else Inr (s\<lparr>balance := 0, events := events s @ [Withdrawal (owner s) bal]\<rparr>))"

definition transferOwnership :: "PlinkoGame \<Rightarrow> address \<Rightarrow> address \<Rightarrow> error + PlinkoGame" where
  "transferOwnership s sender newOwner =
     (if sender \<noteq> owner s then Inl (Require ''Only owner can call this function'')
      else if \<not> newOwner \<noteq> 0 then Inl (Require ''Invalid new owner address'')
      else Inr (s\<lparr>owner := newOwner\<rparr>))"

section \<open>The read-only entry points\<close>

definition getPlayerScore :: "PlinkoGame \<Rightarrow> address \<Rightarrow> euint32" where
  "getPlayerScore s a = totalScore (players s a)"

definition getPlayerInfo :: "PlinkoGame \<Rightarrow> address \<Rightarrow> uint256 \<times> uint256 \<times> uint256" where
  "getPlayerInfo s a =
     (let player = players s a in
      (lastCheckInTime player, availableTurns player, gamesPlayed player))"

definition getTotalPlayers :: "PlinkoGame \<Rightarrow> nat" where
  "getTotalPlayers s = length (playerAddresses s)"

text \<open>The sum in \<^verbatim>\<open>canCheckIn\<close> is checked like every other: the view can revert.\<close>

definition canCheckIn :: "PlinkoGame \<Rightarrow> address \<Rightarrow> uint256 \<Rightarrow> error + bool" where
  "canCheckIn s a now =
     (let player = players s a in
      case checked_add (lastCheckInTime player) SECONDS_PER_DAY of
        Inl e \<Rightarrow> Inl e
      | Inr due \<Rightarrow> Inr (due \<le> now))"

definition getBalance :: "PlinkoGame \<Rightarrow> uint256" where
  "getBalance s = balance s"

subsection \<open>The leaderboard\<close>

text \<open>
  \<^verbatim>\<open>getLeaderboard\<close> allocates a memory array of \<open>playerCount\<close> zero entries, fills
  it in a first loop and sorts it in place with two nested loops that exchange the
  entries at \<open>i\<close> and \<open>j\<close> whenever the one at \<open>i\<close> has played fewer games. The
  array is a list; an index outside it reverts with a panic, as in Solidity. The
  elements of a memory array of structs are references, and the three assignments
  through \<open>temp\<close> exchange the two references: the list exchanges the two entries.
  The loop counters never pass \<open>playerCount\<close> and are natural numbers.
\<close>

text \<open>The entry the first loop writes for an address.\<close>

definition entryOf :: "PlinkoGame \<Rightarrow> address \<Rightarrow> LeaderboardEntry" where
  "entryOf s a = \<lparr>playerAddress = a, entryGamesPlayed = gamesPlayed (players s a)\<rparr>"

definition zeroEntry :: LeaderboardEntry where
  "zeroEntry = \<lparr>playerAddress = 0, entryGamesPlayed = 0\<rparr>"

function fillLeaderboard ::
  "PlinkoGame \<Rightarrow> nat \<Rightarrow> nat \<Rightarrow> LeaderboardEntry list \<Rightarrow> error + LeaderboardEntry list" where
  "fillLeaderboard s playerCount i leaderboard =
     (if i < playerCount then
        if i < length (playerAddresses s) \<and> i < length leaderboard then
          let playerAddr = playerAddresses s ! i in
          fillLeaderboard s playerCount (i + 1)
            (leaderboard[i := \<lparr>playerAddress = playerAddr,
                                entryGamesPlayed = gamesPlayed (players s playerAddr)\<rparr>])
        else Inl Panic
      else Inr leaderboard)"
  by pat_completeness auto
termination
  by (relation "measure (\<lambda>(s, playerCount, i, leaderboard). playerCount - i)") auto

function sortInner ::
  "nat \<Rightarrow> nat \<Rightarrow> nat \<Rightarrow> LeaderboardEntry list \<Rightarrow> error + LeaderboardEntry list" where
  "sortInner playerCount i j leaderboard =
     (if j < playerCount then
        if i < length leaderboard \<and> j < length leaderboard then
          if entryGamesPlayed (leaderboard ! i) < entryGamesPlayed (leaderboard ! j) then
            let temp = leaderboard ! i in
            sortInner playerCount i (j + 1) (leaderboard[i := leaderboard ! j, j := temp])
          else sortInner playerCount i (j + 1) leaderboard
        else Inl Panic
      else Inr leaderboard)"
  by pat_completeness auto
termination
  by (relation "measure (\<lambda>(playerCount, i, j, leaderboard). playerCount - j)") auto

function sortOuter ::
  "nat \<Rightarrow> nat \<Rightarrow> LeaderboardEntry list \<Rightarrow> error + LeaderboardEntry list" where
  "sortOuter playerCount i leaderboard =
     (if i < playerCount then
        case sortInner playerCount i (i + 1) leaderboard of
          Inl e \<Rightarrow> Inl e
        | Inr leaderboard' \<Rightarrow> sortOuter playerCount (i + 1) leaderboard'
      else Inr leaderboard)"
  by pat_completeness auto
termination
  by (relation "measure (\<lambda>(playerCount, i, leaderboard). playerCount - i)") auto

declare fillLeaderboard.simps [simp del] sortInner.simps [simp del] sortOuter.simps [simp del]

definition getLeaderboard :: "PlinkoGame \<Rightarrow> error + LeaderboardEntry list" where
  "getLeaderboard s =
     (let playerCount = length (playerAddresses s);
          leaderboard = replicate playerCount zeroEntry in
      case fillLeaderboard s playerCount 0 leaderboard of
        Inl e \<Rightarrow> Inl e
      | Inr filled \<Rightarrow> sortOuter playerCount 0 filled)"

section \<open>Transactions and reachable states\<close>

datatype call =
    DailyCheckIn
  | BuyTurns uint256
  | DropBall externalEuint32 bytes
  | PlayTurn
  | Withdraw
  | TransferOwnership address

record tx =
  tx_sender :: address
  tx_value :: uint256
  tx_timestamp :: uint256
  tx_call :: call

text \<open>
  Dispatch of a transaction. Only \<^verbatim>\<open>buyTurns\<close> is payable; the compiler makes every
  other function revert when ether is attached.
\<close>

definition payable :: "call \<Rightarrow> bool" where
  "payable c = (case c of BuyTurns turnCount \<Rightarrow> True | _ \<Rightarrow> False)"

definition execute :: "Env \<Rightarrow> PlinkoGame \<Rightarrow> tx \<Rightarrow> error + PlinkoGame" where
  "execute env s t =
     (if \<not> payable (tx_call t) \<and> tx_value t \<noteq> 0 then Inl NotPayable
      else
        case tx_call t of
          DailyCheckIn \<Rightarrow> dailyCheckIn s (tx_sender t) (tx_timestamp t)
        | BuyTurns turnCount \<Rightarrow> buyTurns s (tx_sender t) (tx_value t) turnCount
        | DropBall encryptedScore inputProof \<Rightarrow>
            dropBall env s (tx_sender t) encryptedScore inputProof
        | PlayTurn \<Rightarrow> playTurn s (tx_sender t)
        | Withdraw \<Rightarrow> withdraw env s (tx_sender t)
        | TransferOwnership newOwner \<Rightarrow> transferOwnership s (tx_sender t) newOwner)"

text \<open>
  A transaction that reverts is rolled back by the virtual machine: storage, balance,
  log and permissions are those before the call.
\<close>

definition transact :: "Env \<Rightarrow> PlinkoGame \<Rightarrow> tx \<Rightarrow> PlinkoGame" where
  "transact env s t = (case execute env s t of Inl e \<Rightarrow> s | Inr s' \<Rightarrow> s')"

fun run :: "Env \<Rightarrow> PlinkoGame \<Rightarrow> tx list \<Rightarrow> PlinkoGame" where
  "run env s [] = s"
| "run env s (t # ts) = run env (transact env s t) ts"

text \<open>The states the contract can be in: deployed by someone, then any transactions.\<close>

inductive reachable :: "Env \<Rightarrow> PlinkoGame \<Rightarrow> bool" for env :: Env where
  deployed: "reachable env (constructor creator)"
| transacted: "reachable env s \<Longrightarrow> execute env s t = Inr s' \<Longrightarrow> reachable env s'"

text \<open>
  What is asked of the leaderboard: descending by games played, and entries with equal
  games played in the order of the registry.
\<close>

abbreviation descending :: "LeaderboardEntry list \<Rightarrow> bool" where
  "descending \<equiv> sorted_wrt (\<lambda>x y. entryGamesPlayed y \<le> entryGamesPlayed x)"

definition tiesInRegistryOrder :: "PlinkoGame \<Rightarrow> LeaderboardEntry list \<Rightarrow> bool" where
  "tiesInRegistryOrder s lb \<longleftrightarrow>
     (\<forall>g \<in> set (map entryGamesPlayed lb).
        filter (\<lambda>e. entryGamesPlayed e = g) lb
        = filter (\<lambda>e. entryGamesPlayed e = g) (map (entryOf s) (playerAddresses s)))"

text \<open>
  An address has interacted with the ledger in a run when one of its check-ins or
  purchases went through: these are the calls that register a participant. (A play
  needs turns, and so an earlier check-in or purchase.)
\<close>

definition registers :: "call \<Rightarrow> bool" where
  "registers c = (case c of DailyCheckIn \<Rightarrow> True | BuyTurns turnCount \<Rightarrow> True | _ \<Rightarrow> False)"

fun interacted :: "Env \<Rightarrow> PlinkoGame \<Rightarrow> tx list \<Rightarrow> address \<Rightarrow> bool" where
  "interacted env s [] a = False"
| "interacted env s (t # ts) a =
     ((tx_sender t = a \<and> registers (tx_call t) \<and> \<not> isl (execute env s t))
      \<or> interacted env (transact env s t) ts a)"

text \<open>
  No check-in of \<open>a\<close> goes through in the run of \<open>ts\<close> from \<open>s\<close>: two check-ins of \<open>a\<close>
  with such a run between them are consecutive.
\<close>

fun quiet :: "Env \<Rightarrow> address \<Rightarrow> PlinkoGame \<Rightarrow> tx list \<Rightarrow> bool" where
  "quiet env a s [] = True"
| "quiet env a s (t # ts) =
     (\<not> (tx_sender t = a \<and> tx_call t = DailyCheckIn \<and> \<not> isl (execute env s t))
      \<and> quiet env a (transact env s t) ts)"

text \<open>
  The invariant of the registry: no address twice, the registered addresses are those
  with a non-zero \<open>lastCheckInTime\<close>, and the record of any other address is all zero.
\<close>

definition registry_inv :: "PlinkoGame \<Rightarrow> bool" where
  "registry_inv s \<longleftrightarrow>
     distinct (playerAddresses s)
     \<and> (\<forall>a. a \<in> set (playerAddresses s) \<longleftrightarrow> lastCheckInTime (players s a) \<noteq> 0)
     \<and> (\<forall>a. lastCheckInTime (players s a) = 0 \<longrightarrow> players s a = zeroPlayer)"

section \<open>Example runs\<close>

text \<open>
  Concrete participants, surroundings and states, used to evaluate the contract on
  explicit inputs. In \<open>env0\<close> an input proof is valid unless it is empty, and the
  handle of a sum is the sum of the handles.
\<close>

definition alice :: address where "alice = 1"
definition bob :: address where "bob = 2"
definition carol :: address where "carol = 3"
definition deployer :: address where "deployer = 9"

definition env0 :: Env where
  "env0 = \<lparr>selfAddress = 100, FHE_fromExternal = (\<lambda>h p a. if p = [] then None else Some h),
            FHE_add = (\<lambda>x y. x + y), acceptsTransfer = (\<lambda>a. True)\<rparr>"

definition call_tx :: "address \<Rightarrow> uint256 \<Rightarrow> call \<Rightarrow> tx" where
  "call_tx a now c = \<lparr>tx_sender = a, tx_value = 0, tx_timestamp = now, tx_call = c\<rparr>"

definition fresh :: PlinkoGame where
  "fresh = constructor deployer"

definition checkedIn :: PlinkoGame where
  "checkedIn = run env0 fresh [call_tx alice 86400 DailyCheckIn]"

text \<open>
  Three participants check in; Alice and Bob then play one game each, Carol two.
\<close>

definition tied :: PlinkoGame where
  "tied = run env0 fresh
     [call_tx alice 86400 DailyCheckIn, call_tx bob 86400 DailyCheckIn,
      call_tx carol 86400 DailyCheckIn, call_tx alice 86401 PlayTurn,
      call_tx bob 86402 PlayTurn, call_tx carol 86403 PlayTurn, call_tx carol 86404 PlayTurn]"

definition buy_tx :: "address \<Rightarrow> uint256 \<Rightarrow> uint256 \<Rightarrow> tx" where
  "buy_tx a now n =
     \<lparr>tx_sender = a, tx_value = n * TURN_PRICE, tx_timestamp = now, tx_call = BuyTurns n\<rparr>"

text \<open>Alice's first interaction is a purchase of two turns.\<close>

definition purchased :: PlinkoGame where
  "purchased = run env0 fresh [buy_tx alice 86400 2]"

section \<open>Basic facts\<close>

lemmas ev = alice_def bob_def carol_def deployer_def env0_def call_tx_def buy_tx_def fresh_def
  checkedIn_def
  constructor_def zeroPlayer_def transact_def execute_def payable_def
  dailyCheckIn_def buyTurns_def playTurn_def dropBall_def withdraw_def transferOwnership_def
  checked_add_def checked_mul_def checked_dec_def Let_def
  SECONDS_PER_DAY_def DAILY_FREE_TURNS_def TURN_PRICE_def

lemma checked_add_unat: "checked_add a b = Inr c \<Longrightarrow> unat c = unat a + unat b"
  by (auto simp: checked_add_def unat_word_ariths split: if_splits)

lemma checked_dec_unat: "checked_dec a = Inr c \<Longrightarrow> unat c + 1 = unat a"
  by (auto simp: checked_dec_def unat_minus_one unat_gt_0 split: if_splits)

section \<open>The entry points in normal form\<close>

lemma unat_uint256_bound: "unat (x :: uint256) < 2 ^ 256"
  using unsigned_less [of x, where 'a = nat] by simp

lemma unat_SECONDS_PER_DAY: "unat SECONDS_PER_DAY = 86400"
  by (simp add: SECONDS_PER_DAY_def)

lemma unat_DAILY_FREE_TURNS: "unat DAILY_FREE_TURNS = 3"
  by (simp add: DAILY_FREE_TURNS_def)

lemma unat_TURN_PRICE: "unat TURN_PRICE = 1000000000000000"
  by (simp add: TURN_PRICE_def)

lemma checked_add_eq:
  "checked_add a b = (if unat a + unat b < 2 ^ 256 then Inr (a + b) else Inl Panic)"
  by (simp add: checked_add_def)

lemma unat_add_no_overflow:
  "unat a + unat b < 2 ^ 256 \<Longrightarrow> unat (a + b) = unat a + unat (b :: uint256)"
  using unat_add_lem [of a b] by simp

text \<open>The check-in, with its checks read as natural numbers.\<close>

lemma dailyCheckIn_eq:
  "dailyCheckIn s a now =
     (if unat (lastCheckInTime (players s a)) + 86400 \<le> unat now then
        if unat (availableTurns (players s a)) + 3 < 2 ^ 256 then
          Inr (s\<lparr>players := (players s)
                  (a := (players s a)\<lparr>availableTurns := availableTurns (players s a) + DAILY_FREE_TURNS,
                                       lastCheckInTime := now\<rparr>),
                playerAddresses := (if lastCheckInTime (players s a) = 0
                                    then playerAddresses s @ [a] else playerAddresses s),
                events := events s @ [CheckedIn a DAILY_FREE_TURNS now]\<rparr>)
        else Inl Panic
      else if unat (lastCheckInTime (players s a)) + 86400 < 2 ^ 256
        then Inl (Require ''Already checked in today'')
        else Inl Panic)"
proof (cases "unat (lastCheckInTime (players s a)) + 86400 < 2 ^ 256")
  case True
  then have due: "checked_add (lastCheckInTime (players s a)) SECONDS_PER_DAY
      = Inr (lastCheckInTime (players s a) + SECONDS_PER_DAY)"
    by (simp add: checked_add_eq unat_SECONDS_PER_DAY)
  have cmp: "lastCheckInTime (players s a) + SECONDS_PER_DAY \<le> now
      \<longleftrightarrow> unat (lastCheckInTime (players s a)) + 86400 \<le> unat now"
    using True unat_add_no_overflow [of "lastCheckInTime (players s a)" SECONDS_PER_DAY]
    by (simp add: word_le_nat_alt unat_SECONDS_PER_DAY)
  have turns: "checked_add (availableTurns (players s a)) DAILY_FREE_TURNS
      = (if unat (availableTurns (players s a)) + 3 < 2 ^ 256
         then Inr (availableTurns (players s a) + DAILY_FREE_TURNS) else Inl Panic)"
    by (simp add: checked_add_eq unat_DAILY_FREE_TURNS)
  show ?thesis
    using True by (simp add: dailyCheckIn_def Let_def due cmp turns)
next
  case False
  moreover have "\<not> unat (lastCheckInTime (players s a)) + 86400 \<le> unat now"
    using False unat_uint256_bound [of now] by simp
  ultimately show ?thesis
    by (simp add: dailyCheckIn_def Let_def checked_add_eq unat_SECONDS_PER_DAY)
qed

lemma dailyCheckIn_succeeds_iff:
  "(\<exists>s'. dailyCheckIn s a now = Inr s') \<longleftrightarrow>
     unat (lastCheckInTime (players s a)) + 86400 \<le> unat now
     \<and> unat (availableTurns (players s a)) + 3 < 2 ^ 256"
  by (simp add: dailyCheckIn_eq)


lemma checked_mul_eq:
  "checked_mul a b = (if unat a * unat b < 2 ^ 256 then Inr (a * b) else Inl Panic)"
  by (simp add: checked_mul_def)

lemma unat_mult_no_overflow:
  "unat a * unat b < 2 ^ 256 \<Longrightarrow> unat (a * b) = unat a * unat (b :: uint256)"
  using unat_mult_lem [of a b] by simp

lemma buyTurns_eq:
  "buyTurns s a v n =
     (if n = 0 then Inl (Require ''Must buy at least 1 turn'')
      else if \<not> unat n * 1000000000000000 < 2 ^ 256 then Inl Panic
      else if unat v \<noteq> unat n * 1000000000000000 then Inl (Require ''Incorrect payment amount'')
      else if \<not> unat (availableTurns (players s a)) + unat n < 2 ^ 256 then Inl Panic
      else
        Inr (s\<lparr>players := (players s)
                  (a := (if lastCheckInTime (players s a) = 0
                         then (players s a)\<lparr>lastCheckInTime := 1\<rparr> else players s a)
                        \<lparr>availableTurns := availableTurns (players s a) + n\<rparr>),
               playerAddresses := (if lastCheckInTime (players s a) = 0
                                   then playerAddresses s @ [a] else playerAddresses s),
               balance := balance s + v,
               events := events s @ [TurnsPurchased a n v]\<rparr>))"
proof -
  consider (zero) "n = 0"
    | (overflow) "n \<noteq> 0" "\<not> unat n * 1000000000000000 < 2 ^ 256"
    | (priced) "n \<noteq> 0" "unat n * 1000000000000000 < 2 ^ 256"
    by blast
  then show ?thesis
  proof cases
    case zero
    then show ?thesis by (simp add: buyTurns_def)
  next
    case overflow
    have pos: "0 < n" using overflow(1) by (simp add: word_greater_zero_iff)
    have price: "checked_mul n TURN_PRICE = Inl Panic"
      using overflow(2) by (simp only: checked_mul_eq unat_TURN_PRICE if_False)
    have "buyTurns s a v n = Inl Panic"
      by (simp add: buyTurns_def pos price)
    then show ?thesis
      using overflow by simp
  next
    case priced
    have pos: "0 < n" using priced(1) by (simp add: word_greater_zero_iff)
    have price: "checked_mul n TURN_PRICE = Inr (n * TURN_PRICE)"
      using priced(2) by (simp only: checked_mul_eq unat_TURN_PRICE if_True)
    have "unat (n * TURN_PRICE) = unat n * 1000000000000000"
      using priced(2) unat_mult_no_overflow [of n TURN_PRICE] by (simp only: unat_TURN_PRICE)
    then have cmp: "v \<noteq> n * TURN_PRICE \<longleftrightarrow> unat v \<noteq> unat n * 1000000000000000"
      by (simp only: word_unat_eq_iff)
    have body: "buyTurns s a v n =
        (if v \<noteq> n * TURN_PRICE then Inl (Require ''Incorrect payment amount'')
         else if \<not> unat (availableTurns (players s a)) + unat n < 2 ^ 256 then Inl Panic
         else
           Inr (s\<lparr>players := (players s)
                  (a := (if lastCheckInTime (players s a) = 0
                         then (players s a)\<lparr>lastCheckInTime := 1\<rparr> else players s a)
                        \<lparr>availableTurns := availableTurns (players s a) + n\<rparr>),
               playerAddresses := (if lastCheckInTime (players s a) = 0
                                   then playerAddresses s @ [a] else playerAddresses s),
               balance := balance s + v,
               events := events s @ [TurnsPurchased a n v]\<rparr>))"
      by (simp add: buyTurns_def Let_def pos price checked_add_eq)
    show ?thesis
      unfolding body cmp using priced by simp
  qed
qed

lemma playTurn_eq:
  "playTurn s a =
     (if availableTurns (players s a) = 0 then Inl (Require ''No turns available'')
      else if \<not> unat (gamesPlayed (players s a)) + 1 < 2 ^ 256 then Inl Panic
      else
        Inr (s\<lparr>players := (players s)
                  (a := (players s a)\<lparr>availableTurns := availableTurns (players s a) - 1,
                                       gamesPlayed := gamesPlayed (players s a) + 1\<rparr>),
               events := events s @ [GamePlayed a (availableTurns (players s a) - 1),
                                     ScoreUpdated a (gamesPlayed (players s a) + 1)]\<rparr>))"
  by (simp add: playTurn_def Let_def checked_add_eq checked_dec_def word_greater_zero_iff)

lemma dropBall_eq:
  "dropBall env s a encryptedScore inputProof =
     (if availableTurns (players s a) = 0 then Inl (Require ''No turns available'')
      else case FHE_fromExternal env encryptedScore inputProof a of
        None \<Rightarrow> Inl InvalidProof
      | Some score \<Rightarrow>
          if \<not> unat (gamesPlayed (players s a)) + 1 < 2 ^ 256 then Inl Panic
          else
            Inr (s\<lparr>players := (players s)
                      (a := (players s a)
                         \<lparr>totalScore := FHE_add env (totalScore (players s a)) score,
                          availableTurns := availableTurns (players s a) - 1,
                          gamesPlayed := gamesPlayed (players s a) + 1\<rparr>),
                   permissions := permissions s
                     @ [(FHE_add env (totalScore (players s a)) score, selfAddress env),
                        (FHE_add env (totalScore (players s a)) score, a)],
                   events := events s @ [GamePlayed a (availableTurns (players s a) - 1),
                                         ScoreUpdated a (gamesPlayed (players s a) + 1)]\<rparr>))"
  by (simp add: dropBall_def Let_def checked_add_eq checked_dec_def word_greater_zero_iff
      split: option.splits)

section \<open>The registry invariant\<close>

lemma registry_inv_constructor: "registry_inv (constructor d)"
  by (simp add: registry_inv_def constructor_def zeroPlayer_def)

lemma now_nonzero: "unat x + 86400 \<le> unat (now :: uint256) \<Longrightarrow> now \<noteq> 0"
  by auto

lemma registry_inv_dailyCheckIn:
  assumes "registry_inv s" "dailyCheckIn s a now = Inr s'"
  shows "registry_inv s'"
  using assms now_nonzero [of "lastCheckInTime (players s a)" now]
  by (auto simp: registry_inv_def dailyCheckIn_eq split: if_splits)

lemma registry_inv_buyTurns:
  assumes "registry_inv s" "buyTurns s a v n = Inr s'"
  shows "registry_inv s'"
  using assms
  by (auto simp: registry_inv_def buyTurns_eq split: if_splits)

lemma turns_registered:
  "registry_inv s \<Longrightarrow> availableTurns (players s a) \<noteq> 0 \<Longrightarrow> lastCheckInTime (players s a) \<noteq> 0"
  by (auto simp: registry_inv_def zeroPlayer_def)

lemma registry_inv_playTurn:
  assumes "registry_inv s" "playTurn s a = Inr s'"
  shows "registry_inv s'"
  using assms turns_registered [of s a]
  by (auto simp: registry_inv_def playTurn_eq split: if_splits)

lemma registry_inv_dropBall:
  assumes "registry_inv s" "dropBall env s a x pr = Inr s'"
  shows "registry_inv s'"
  using assms turns_registered [of s a]
  by (auto simp: registry_inv_def dropBall_eq split: if_splits option.splits)

lemma registry_inv_withdraw:
  assumes "registry_inv s" "withdraw env s a = Inr s'"
  shows "registry_inv s'"
  using assms
  by (auto simp: registry_inv_def withdraw_def Let_def split: if_splits)

lemma registry_inv_transferOwnership:
  assumes "registry_inv s" "transferOwnership s a b = Inr s'"
  shows "registry_inv s'"
  using assms
  by (auto simp: registry_inv_def transferOwnership_def split: if_splits)

lemma registry_inv_execute:
  assumes "registry_inv s" "execute env s t = Inr s'"
  shows "registry_inv s'"
  using assms
  by (auto simp: execute_def split: if_splits call.splits
      intro: registry_inv_dailyCheckIn registry_inv_buyTurns registry_inv_playTurn
        registry_inv_dropBall registry_inv_withdraw registry_inv_transferOwnership)

lemma registry_inv_transact: "registry_inv s \<Longrightarrow> registry_inv (transact env s t)"
  by (auto simp: transact_def split: sum.splits intro: registry_inv_execute)

lemma registry_inv_run: "registry_inv s \<Longrightarrow> registry_inv (run env s ts)"
  by (induction ts arbitrary: s) (auto intro: registry_inv_transact)

lemma reachable_registry_inv: "reachable env s \<Longrightarrow> registry_inv s"
  by (induction rule: reachable.induct)
    (auto intro: registry_inv_constructor registry_inv_execute)

lemma reachable_transact: "reachable env s \<Longrightarrow> reachable env (transact env s t)"
  by (auto simp: transact_def split: sum.splits intro: reachable.transacted)

lemma reachable_run: "reachable env s \<Longrightarrow> reachable env (run env s ts)"
  by (induction ts arbitrary: s) (auto intro: reachable_transact)

section \<open>Registered addresses are those that interacted\<close>

lemma registered_transact:
  assumes "registry_inv s"
  shows "a \<in> set (playerAddresses (transact env s t)) \<longleftrightarrow>
    a \<in> set (playerAddresses s)
    \<or> (tx_sender t = a \<and> registers (tx_call t) \<and> \<not> isl (execute env s t))"
proof (cases "execute env s t")
  case (Inl e)
  then show ?thesis by (simp add: transact_def)
next
  case (Inr s')
  have reg: "lastCheckInTime (players s a) \<noteq> 0 \<longleftrightarrow> a \<in> set (playerAddresses s)"
    using assms by (simp add: registry_inv_def)
  have "a \<in> set (playerAddresses s') \<longleftrightarrow>
      a \<in> set (playerAddresses s) \<or> (tx_sender t = a \<and> registers (tx_call t))"
    using Inr reg
    by (cases "tx_call t")
      (auto simp: execute_def registers_def dailyCheckIn_eq buyTurns_eq playTurn_eq dropBall_eq
        withdraw_def transferOwnership_def Let_def split: if_splits option.splits)
  then show ?thesis using Inr by (simp add: transact_def)
qed

lemma registered_run:
  assumes "registry_inv s"
  shows "a \<in> set (playerAddresses (run env s ts)) \<longleftrightarrow>
    a \<in> set (playerAddresses s) \<or> interacted env s ts a"
  using assms
proof (induction ts arbitrary: s)
  case Nil
  then show ?case by simp
next
  case (Cons t ts)
  have "registry_inv (transact env s t)"
    using Cons.prems by (rule registry_inv_transact)
  then show ?case
    using Cons.IH [of "transact env s t"] registered_transact [OF Cons.prems, of a env t]
    by auto
qed

lemma registered_iff_interacted:
  "a \<in> set (playerAddresses (run env (constructor d) ts)) \<longleftrightarrow> interacted env (constructor d) ts a"
  using registered_run [OF registry_inv_constructor, of a env d ts]
  by (simp add: constructor_def)

lemma unregistered_zero:
  assumes "\<not> interacted env (constructor d) ts a"
  shows "players (run env (constructor d) ts) a = zeroPlayer"
proof -
  have inv: "registry_inv (run env (constructor d) ts)"
    by (intro registry_inv_run registry_inv_constructor)
  have "a \<notin> set (playerAddresses (run env (constructor d) ts))"
    using assms by (simp add: registered_iff_interacted)
  then show ?thesis
    using inv by (simp add: registry_inv_def)
qed

lemma interacted_lastCheckInTime:
  "interacted env (constructor d) ts a \<longleftrightarrow>
     lastCheckInTime (players (run env (constructor d) ts) a) \<noteq> 0"
proof -
  have inv: "registry_inv (run env (constructor d) ts)"
    by (intro registry_inv_run registry_inv_constructor)
  then show ?thesis
    using registered_iff_interacted [of a env d ts] by (simp add: registry_inv_def)
qed

section \<open>Playing a turn\<close>

lemma playTurn_success:
  assumes "playTurn s a = Inr s'"
  shows "0 < availableTurns (players s a)"
    and "unat (availableTurns (players s' a)) + 1 = unat (availableTurns (players s a))"
    and "unat (gamesPlayed (players s' a)) = unat (gamesPlayed (players s a)) + 1"
  using assms
  by (auto simp: playTurn_def Let_def dest!: checked_add_unat checked_dec_unat
      split: if_splits sum.splits)

lemma dropBall_success:
  assumes "dropBall env s a encryptedScore inputProof = Inr s'"
  shows "0 < availableTurns (players s a)"
    and "unat (availableTurns (players s' a)) + 1 = unat (availableTurns (players s a))"
    and "unat (gamesPlayed (players s' a)) = unat (gamesPlayed (players s a)) + 1"
  using assms
  by (auto simp: dropBall_def Let_def dest!: checked_add_unat checked_dec_unat
      split: if_splits sum.splits option.splits)

text \<open>
  C1. Both play variants, \<open>playTurn\<close> and \<open>dropBall\<close>: a call that succeeds was made
  with \<open>availableTurns > 0\<close>, leaves the caller with exactly one turn less and exactly
  one game more; with \<open>availableTurns = 0\<close> the call reverts (``No turns available'')
  and the transaction leaves the whole state as it was.
\<close>

theorem play_uses_one_turn:
  "(playTurn s a = Inr s' \<longrightarrow>
      0 < availableTurns (players s a)
      \<and> unat (availableTurns (players s' a)) + 1 = unat (availableTurns (players s a))
      \<and> unat (gamesPlayed (players s' a)) = unat (gamesPlayed (players s a)) + 1)
   \<and> (dropBall env s a encryptedScore inputProof = Inr s'' \<longrightarrow>
      0 < availableTurns (players s a)
      \<and> unat (availableTurns (players s'' a)) + 1 = unat (availableTurns (players s a))
      \<and> unat (gamesPlayed (players s'' a)) = unat (gamesPlayed (players s a)) + 1)
   \<and> (availableTurns (players s a) = 0 \<longrightarrow>
      playTurn s a = Inl (Require ''No turns available'')
      \<and> dropBall env s a encryptedScore inputProof = Inl (Require ''No turns available'')
      \<and> transact env s \<lparr>tx_sender = a, tx_value = v, tx_timestamp = now, tx_call = PlayTurn\<rparr> = s
      \<and> transact env s \<lparr>tx_sender = a, tx_value = v, tx_timestamp = now,
                          tx_call = DropBall encryptedScore inputProof\<rparr> = s)"
proof (intro conjI impI)
  assume z: "availableTurns (players s a) = 0"
  show "playTurn s a = Inl (Require ''No turns available'')"
    using z by (simp add: playTurn_def)
  show "dropBall env s a encryptedScore inputProof = Inl (Require ''No turns available'')"
    using z by (simp add: dropBall_def)
  show "transact env s \<lparr>tx_sender = a, tx_value = v, tx_timestamp = now, tx_call = PlayTurn\<rparr> = s"
    using z by (simp add: transact_def execute_def playTurn_def)
  show "transact env s \<lparr>tx_sender = a, tx_value = v, tx_timestamp = now,
                          tx_call = DropBall encryptedScore inputProof\<rparr> = s"
    using z by (simp add: transact_def execute_def dropBall_def)
qed (insert playTurn_success [of s a s']
      dropBall_success [of env s a encryptedScore inputProof s''], simp_all)

theorem play_uses_one_turn_witness:
  "playTurn checkedIn alice = Inr (run env0 checkedIn [call_tx alice 86400 PlayTurn])
   \<and> dropBall env0 checkedIn alice 50 [1]
       = Inr (run env0 checkedIn [call_tx alice 86400 (DropBall 50 [1])])
   \<and> unat (availableTurns (players checkedIn alice)) = 3
   \<and> unat (availableTurns (players (run env0 checkedIn [call_tx alice 86400 PlayTurn]) alice)) = 2
   \<and> unat (gamesPlayed (players (run env0 checkedIn [call_tx alice 86400 PlayTurn]) alice)) = 1
   \<and> availableTurns (players fresh alice) = 0
   \<and> playTurn fresh alice = Inl (Require ''No turns available'')
   \<and> transact env0 fresh (call_tx alice 86400 PlayTurn) = fresh"
  using play_uses_one_turn [of checkedIn alice "run env0 checkedIn [call_tx alice 86400 PlayTurn]"
      env0 50 "[1]" "run env0 checkedIn [call_tx alice 86400 (DropBall 50 [1])]" 0 86400]
    play_uses_one_turn [of fresh alice fresh env0 50 "[1]" fresh 0 86400]
  by (simp add: ev)

section \<open>The leaderboard is a sorted permutation of the registry\<close>

lemma fillLeaderboard_from:
  assumes "length lb = n" "length (playerAddresses s) = n" "i \<le> n"
  shows "fillLeaderboard s n i lb = Inr (take i lb @ map (entryOf s) (drop i (playerAddresses s)))"
  using assms
proof (induction "n - i" arbitrary: i lb)
  case 0
  then show ?case
    by (subst fillLeaderboard.simps) simp
next
  case (Suc k)
  let ?e = "entryOf s (playerAddresses s ! i)"
  have lt: "i < n" using Suc.hyps(2) by simp
  have step: "fillLeaderboard s n i lb = fillLeaderboard s n (i + 1) (lb[i := ?e])"
    using lt Suc.prems by (subst fillLeaderboard.simps) (simp add: entryOf_def Let_def)
  have "fillLeaderboard s n (i + 1) (lb[i := ?e])
      = Inr (take (i + 1) (lb[i := ?e]) @ map (entryOf s) (drop (i + 1) (playerAddresses s)))"
    using lt Suc.prems Suc.hyps(2) by (intro Suc.hyps(1)) simp_all
  also have "take (i + 1) (lb[i := ?e]) = take i lb @ [?e]"
    using lt Suc.prems by (simp add: take_Suc_conv_app_nth)
  also have "(take i lb @ [?e]) @ map (entryOf s) (drop (i + 1) (playerAddresses s))
      = take i lb @ map (entryOf s) (drop i (playerAddresses s))"
    using lt Suc.prems by (simp add: Cons_nth_drop_Suc [symmetric])
  finally show ?case using step by simp
qed

lemma fillLeaderboard_all:
  "fillLeaderboard s (length (playerAddresses s)) 0
      (replicate (length (playerAddresses s)) zeroEntry)
   = Inr (map (entryOf s) (playerAddresses s))"
  using fillLeaderboard_from [of "replicate (length (playerAddresses s)) zeroEntry"
      "length (playerAddresses s)" s 0]
  by simp

text \<open>One pass of the inner loop.\<close>

lemma sortInner_pass:
  assumes "length lb = n" "i < j"
    and "\<forall>k. i < k \<and> k < j \<longrightarrow> entryGamesPlayed (lb ! k) \<le> entryGamesPlayed (lb ! i)"
  shows "\<exists>lb'. sortInner n i j lb = Inr lb' \<and> length lb' = n
           \<and> take i lb' = take i lb \<and> mset (drop i lb') = mset (drop i lb)
           \<and> (\<forall>k. i < k \<and> k < n \<longrightarrow> entryGamesPlayed (lb' ! k) \<le> entryGamesPlayed (lb' ! i))"
  using assms
proof (induction "n - j" arbitrary: j lb)
  case 0
  then have "sortInner n i j lb = Inr lb"
    by (subst sortInner.simps) simp
  moreover have "\<forall>k. i < k \<and> k < n \<longrightarrow> entryGamesPlayed (lb ! k) \<le> entryGamesPlayed (lb ! i)"
    using 0 by auto
  ultimately show ?case using "0.prems" by simp
next
  case (Suc d)
  have lt: "j < n" using Suc.hyps(2) by simp
  have d: "d = n - (j + 1)" using Suc.hyps(2) by simp
  have ij: "i < j + 1" using Suc.prems(2) by simp
  show ?case
  proof (cases "entryGamesPlayed (lb ! i) < entryGamesPlayed (lb ! j)")
    case True
    let ?lb = "lb[i := lb ! j, j := lb ! i]"
    have step: "sortInner n i j lb = sortInner n i (j + 1) ?lb"
      using lt True Suc.prems by (subst sortInner.simps) (simp add: Let_def)
    have inv: "\<forall>k. i < k \<and> k < j + 1
        \<longrightarrow> entryGamesPlayed (?lb ! k) \<le> entryGamesPlayed (?lb ! i)"
    proof (intro allI impI)
      fix k assume k: "i < k \<and> k < j + 1"
      show "entryGamesPlayed (?lb ! k) \<le> entryGamesPlayed (?lb ! i)"
      proof (cases "k = j")
        case True
        then show ?thesis
          using lt \<open>entryGamesPlayed (lb ! i) < entryGamesPlayed (lb ! j)\<close> Suc.prems by simp
      next
        case False
        then have "entryGamesPlayed (lb ! k) \<le> entryGamesPlayed (lb ! i)"
          using k Suc.prems(3) by simp
        then have "entryGamesPlayed (lb ! k) \<le> entryGamesPlayed (lb ! j)"
          using \<open>entryGamesPlayed (lb ! i) < entryGamesPlayed (lb ! j)\<close> by simp
        then show ?thesis
          using False k lt Suc.prems by simp
      qed
    qed
    have len: "length ?lb = n" using Suc.prems(1) by simp
    obtain lb' where res: "sortInner n i (j + 1) ?lb = Inr lb'" "length lb' = n"
      "take i lb' = take i ?lb" "mset (drop i lb') = mset (drop i ?lb)"
      "\<forall>k. i < k \<and> k < n \<longrightarrow> entryGamesPlayed (lb' ! k) \<le> entryGamesPlayed (lb' ! i)"
      using Suc.hyps(1) [OF d len ij inv] by blast
    have "drop i ?lb = (drop i lb)[0 := drop i lb ! (j - i), j - i := drop i lb ! 0]"
      using lt Suc.prems by (simp add: drop_update_swap)
    then have "mset (drop i ?lb) = mset (drop i lb)"
      using lt Suc.prems mset_swap [of "j - i" "drop i lb" 0] by simp
    moreover have "take i ?lb = take i lb"
      using Suc.prems by simp
    ultimately show ?thesis
      using step res by simp
  next
    case False
    have step: "sortInner n i j lb = sortInner n i (j + 1) lb"
      using lt False Suc.prems by (subst sortInner.simps) simp
    have inv: "\<forall>k. i < k \<and> k < j + 1
        \<longrightarrow> entryGamesPlayed (lb ! k) \<le> entryGamesPlayed (lb ! i)"
      using False Suc.prems(3) by (auto simp: less_Suc_eq)
    show ?thesis
      using Suc.hyps(1) [OF d Suc.prems(1) ij inv] step by simp
  qed
qed


lemma in_set_dropE:
  assumes "x \<in> set (drop m xs)"
  obtains k where "m \<le> k" "k < length xs" "xs ! k = x"
proof -
  from assms obtain i where i: "i < length (drop m xs)" "drop m xs ! i = x"
    by (auto simp: in_set_conv_nth)
  then have "m \<le> m + i" "m + i < length xs" "xs ! (m + i) = x"
    by auto
  then show ?thesis by (rule that)
qed

lemma sortOuter_sorts:
  assumes "length lb = n" "descending (take i lb)"
    and "\<forall>x\<in>set (take i lb). \<forall>y\<in>set (drop i lb). entryGamesPlayed y \<le> entryGamesPlayed x"
  shows "\<exists>lb'. sortOuter n i lb = Inr lb' \<and> mset lb' = mset lb \<and> descending lb'"
  using assms
proof (induction "n - i" arbitrary: i lb)
  case 0
  have le: "n \<le> i" using "0.hyps" by simp
  have "sortOuter n i lb = Inr lb"
    using le by (subst sortOuter.simps) simp
  moreover have "take i lb = lb"
    using le "0.prems"(1) by simp
  ultimately show ?case using "0.prems"(2) by simp
next
  case (Suc d)
  have lt: "i < n" using Suc.hyps(2) by simp
  have d: "d = n - (i + 1)" using Suc.hyps(2) by simp
  obtain lb1 where inner: "sortInner n i (i + 1) lb = Inr lb1" "length lb1 = n"
    "take i lb1 = take i lb" "mset (drop i lb1) = mset (drop i lb)"
    "\<forall>k. i < k \<and> k < n \<longrightarrow> entryGamesPlayed (lb1 ! k) \<le> entryGamesPlayed (lb1 ! i)"
  proof -
    have "\<forall>k. i < k \<and> k < i + 1
        \<longrightarrow> entryGamesPlayed (lb ! k) \<le> entryGamesPlayed (lb ! i)"
      by (auto simp: less_Suc_eq)
    moreover have "i < i + 1" by simp
    ultimately show ?thesis
      using sortInner_pass [OF Suc.prems(1), of i "i + 1"] that by blast
  qed
  have step: "sortOuter n i lb = sortOuter n (i + 1) lb1"
    using lt inner(1) by (subst sortOuter.simps) simp
  have suffix: "set (drop i lb1) = set (drop i lb)"
    using inner(4) by (rule mset_eq_setD)
  have head: "lb1 ! i \<in> set (drop i lb)"
    using lt inner(2) suffix Cons_nth_drop_Suc [of i lb1] by (metis list.set_intros(1))
  have tk: "take (i + 1) lb1 = take i lb @ [lb1 ! i]"
    using lt inner(2,3) by (simp add: take_Suc_conv_app_nth)
  have sorted': "descending (take (i + 1) lb1)"
    unfolding tk using Suc.prems(2,3) head by (simp add: sorted_wrt_append)
  have cross: "\<forall>x\<in>set (take (i + 1) lb1). \<forall>y\<in>set (drop (i + 1) lb1).
      entryGamesPlayed y \<le> entryGamesPlayed x"
  proof (intro ballI)
    fix x y
    assume x: "x \<in> set (take (i + 1) lb1)" and y: "y \<in> set (drop (i + 1) lb1)"
    from y obtain k where k: "i + 1 \<le> k" "k < length lb1" "lb1 ! k = y"
      by (rule in_set_dropE)
    have y': "y \<in> set (drop i lb)"
      using y suffix set_drop_subset_set_drop [of i "i + 1" lb1] by auto
    from x have "x \<in> set (take i lb) \<or> x = lb1 ! i"
      unfolding tk by auto
    then show "entryGamesPlayed y \<le> entryGamesPlayed x"
    proof
      assume "x \<in> set (take i lb)"
      then show ?thesis using Suc.prems(3) y' by blast
    next
      assume "x = lb1 ! i"
      then show ?thesis using inner(2,5) k by auto
    qed
  qed
  obtain lb' where res: "sortOuter n (i + 1) lb1 = Inr lb'" "mset lb' = mset lb1" "descending lb'"
    using Suc.hyps(1) [OF d inner(2) sorted' cross] by blast
  have "mset lb1 = mset (take i lb1) + mset (drop i lb1)"
    by (metis append_take_drop_id mset_append)
  also have "\<dots> = mset (take i lb) + mset (drop i lb)"
    by (simp add: inner(3,4))
  also have "\<dots> = mset lb"
    by (metis append_take_drop_id mset_append)
  finally show ?case using step res by simp
qed

lemma getLeaderboard_sorted:
  "\<exists>lb. getLeaderboard s = Inr lb
        \<and> mset lb = mset (map (entryOf s) (playerAddresses s)) \<and> descending lb"
  using sortOuter_sorts [of "map (entryOf s) (playerAddresses s)" "length (playerAddresses s)" 0]
  by (simp add: getLeaderboard_def Let_def fillLeaderboard_all)

text \<open>
  C5 (as amended). \<open>getLeaderboard\<close> never reverts and returns a permutation of the
  registry's entries, each address once with its current \<open>gamesPlayed\<close>, sorted by
  \<open>gamesPlayed\<close> in descending order. Nothing is promised about the order of entries
  with equal \<open>gamesPlayed\<close>.
\<close>

theorem leaderboard_sorted_permutation:
  "\<exists>lb. getLeaderboard s = Inr lb
        \<and> mset lb = mset (map (entryOf s) (playerAddresses s)) \<and> descending lb"
  by (rule getLeaderboard_sorted)

text \<open>
  C5 as stated fails on ties: Alice, Bob and Carol registered in this order, Alice and
  Bob played one game each and Carol two. The exchange of Alice's and Carol's entries
  moves Alice behind Bob, and the leaderboard is Carol, Bob, Alice.
\<close>

theorem leaderboard_ties_counterexample:
  "reachable env0 tied
   \<and> playerAddresses tied = [alice, bob, carol]
   \<and> gamesPlayed (players tied alice) = 1
   \<and> gamesPlayed (players tied bob) = 1
   \<and> gamesPlayed (players tied carol) = 2
   \<and> getLeaderboard tied = Inr [entryOf tied carol, entryOf tied bob, entryOf tied alice]
   \<and> \<not> tiesInRegistryOrder tied [entryOf tied carol, entryOf tied bob, entryOf tied alice]"
proof -
  have "reachable env0 tied"
    unfolding tied_def fresh_def by (intro reachable_run reachable.deployed)
  moreover have "playerAddresses tied = [alice, bob, carol]"
    by (simp add: tied_def ev)
  moreover have "gamesPlayed (players tied alice) = 1" "gamesPlayed (players tied bob) = 1"
    "gamesPlayed (players tied carol) = 2"
    by (simp_all add: tied_def ev)
  moreover have "getLeaderboard tied
      = Inr [entryOf tied carol, entryOf tied bob, entryOf tied alice]"
    by (simp add: getLeaderboard_def tied_def ev entryOf_def zeroEntry_def
      fillLeaderboard.simps sortInner.simps sortOuter.simps)
  moreover have "\<not> tiesInRegistryOrder tied [entryOf tied carol, entryOf tied bob, entryOf tied alice]"
    by (simp add: tiesInRegistryOrder_def entryOf_def tied_def ev)
  ultimately show ?thesis by simp
qed

section \<open>Daily check-in\<close>

text \<open>
  C2. In the state \<open>s\<close> reached by any run of transactions, for every caller \<open>a\<close> whose
  counter has room for three more turns, and every time \<open>now\<close>: \<open>dailyCheckIn\<close> succeeds
  if and only if \<open>now \<ge> lastCheckInTime + 86400\<close>. A successful call adds exactly 3 to the
  caller's \<open>availableTurns\<close>, sets \<open>lastCheckInTime\<close> to \<open>now\<close> and appends the caller to
  the registry exactly when no check-in or purchase of the caller went through before.
  A call that reverts leaves the state as it was. (A counter without that room holds
  more than \<open>2^256 - 4\<close> turns, and turns cost ether or days: no counter filled with the
  ether that exists gets there.)
\<close>

theorem dailyCheckIn_spec:
  assumes "s = run env (constructor d) txs"
    and "unat (availableTurns (players s a)) + 3 < 2 ^ 256"
  shows "((\<exists>s'. dailyCheckIn s a now = Inr s') \<longleftrightarrow>
            unat (lastCheckInTime (players s a)) + 86400 \<le> unat now)
    \<and> (\<forall>s'. dailyCheckIn s a now = Inr s' \<longrightarrow>
            unat (availableTurns (players s' a)) = unat (availableTurns (players s a)) + 3
            \<and> lastCheckInTime (players s' a) = now
            \<and> playerAddresses s' =
                (if interacted env (constructor d) txs a then playerAddresses s
                 else playerAddresses s @ [a]))
    \<and> (\<forall>e. dailyCheckIn s a now = Inl e \<longrightarrow>
            transact env s \<lparr>tx_sender = a, tx_value = v, tx_timestamp = now,
                              tx_call = DailyCheckIn\<rparr> = s)"
proof (intro conjI allI impI)
  show "(\<exists>s'. dailyCheckIn s a now = Inr s') \<longleftrightarrow>
      unat (lastCheckInTime (players s a)) + 86400 \<le> unat now"
    using assms(2) by (simp add: dailyCheckIn_succeeds_iff)
next
  fix s' assume ok: "dailyCheckIn s a now = Inr s'"
  then have s': "s' = s\<lparr>players := (players s)
                  (a := (players s a)\<lparr>availableTurns := availableTurns (players s a) + DAILY_FREE_TURNS,
                                       lastCheckInTime := now\<rparr>),
                playerAddresses := (if lastCheckInTime (players s a) = 0
                                    then playerAddresses s @ [a] else playerAddresses s),
                events := events s @ [CheckedIn a DAILY_FREE_TURNS now]\<rparr>"
    by (auto simp: dailyCheckIn_eq split: if_splits)
  show "unat (availableTurns (players s' a)) = unat (availableTurns (players s a)) + 3"
    using assms(2) unat_add_no_overflow [of "availableTurns (players s a)" DAILY_FREE_TURNS]
    by (simp add: s' unat_DAILY_FREE_TURNS)
  show "lastCheckInTime (players s' a) = now"
    by (simp add: s')
  show "playerAddresses s' =
      (if interacted env (constructor d) txs a then playerAddresses s else playerAddresses s @ [a])"
    using interacted_lastCheckInTime [of env d txs a] by (simp add: s' assms(1))
next
  fix e assume "dailyCheckIn s a now = Inl e"
  then show "transact env s \<lparr>tx_sender = a, tx_value = v, tx_timestamp = now,
                              tx_call = DailyCheckIn\<rparr> = s"
    by (simp add: transact_def execute_def payable_def)
qed

lemma checkedIn_run: "checkedIn = run env0 (constructor deployer) [call_tx alice 86400 DailyCheckIn]"
  by (simp add: checkedIn_def fresh_def)

lemma fresh_run: "fresh = run env0 (constructor deployer) []"
  by (simp add: fresh_def)

theorem dailyCheckIn_spec_witness:
  "unat (availableTurns (players fresh alice)) + 3 < 2 ^ 256
   \<and> dailyCheckIn fresh alice 86400 = Inr checkedIn
   \<and> unat (availableTurns (players checkedIn alice)) = unat (availableTurns (players fresh alice)) + 3
   \<and> lastCheckInTime (players checkedIn alice) = 86400
   \<and> playerAddresses checkedIn = playerAddresses fresh @ [alice]
   \<and> unat (availableTurns (players checkedIn alice)) + 3 < 2 ^ 256
   \<and> dailyCheckIn checkedIn alice 172799 = Inl (Require ''Already checked in today'')
   \<and> transact env0 checkedIn (call_tx alice 172799 DailyCheckIn) = checkedIn"
proof -
  have room: "unat (availableTurns (players fresh alice)) + 3 < 2 ^ 256"
    by (simp add: ev)
  have room': "unat (availableTurns (players checkedIn alice)) + 3 < 2 ^ 256"
    by (simp add: ev)
  have ok: "dailyCheckIn fresh alice 86400 = Inr checkedIn"
    by (simp add: ev)
  have new: "\<not> interacted env0 (constructor deployer) [] alice"
    by simp
  have rej: "dailyCheckIn checkedIn alice 172799 = Inl (Require ''Already checked in today'')"
    by (simp add: ev)
  have "unat (availableTurns (players checkedIn alice))
        = unat (availableTurns (players fresh alice)) + 3
      \<and> lastCheckInTime (players checkedIn alice) = 86400
      \<and> playerAddresses checkedIn = playerAddresses fresh @ [alice]"
    using dailyCheckIn_spec [OF fresh_run room, where now = 86400 and v = 0] ok new by simp
  moreover have "transact env0 checkedIn (call_tx alice 172799 DailyCheckIn) = checkedIn"
    using dailyCheckIn_spec [OF checkedIn_run room', where now = 172799 and v = 0] rej
    by (simp add: call_tx_def)
  ultimately show ?thesis using room room' ok rej by simp
qed

section \<open>Buying turns\<close>




section \<open>Addresses the ledger has not seen\<close>

lemma canCheckIn_eq:
  "canCheckIn s a now =
     (if unat (lastCheckInTime (players s a)) + 86400 < 2 ^ 256
      then Inr (unat (lastCheckInTime (players s a)) + 86400 \<le> unat now)
      else Inl Panic)"
proof (cases "unat (lastCheckInTime (players s a)) + 86400 < 2 ^ 256")
  case True
  then have due: "checked_add (lastCheckInTime (players s a)) SECONDS_PER_DAY
      = Inr (lastCheckInTime (players s a) + SECONDS_PER_DAY)"
    by (simp add: checked_add_eq unat_SECONDS_PER_DAY)
  have cmp: "lastCheckInTime (players s a) + SECONDS_PER_DAY \<le> now
      \<longleftrightarrow> unat (lastCheckInTime (players s a)) + 86400 \<le> unat now"
    using True unat_add_no_overflow [of "lastCheckInTime (players s a)" SECONDS_PER_DAY]
    by (simp add: word_le_nat_alt unat_SECONDS_PER_DAY)
  show ?thesis
    using True by (simp add: canCheckIn_def Let_def due cmp)
next
  case False
  then show ?thesis
    by (simp add: canCheckIn_def Let_def checked_add_eq unat_SECONDS_PER_DAY)
qed

text \<open>
  C8. For every address with no check-in or purchase that went through, in the state
  reached by any run of transactions: \<open>getPlayerInfo\<close> (which has no way to revert)
  returns \<open>(0, 0, 0)\<close>, and \<open>canCheckIn\<close> returns true at every time from 86400 on.
  (\<^verbatim>\<open>block.timestamp\<close> counts seconds since 1970; the blocks of a chain that runs
  this contract are dated far later than its first day.)
\<close>

theorem unseen_address:
  assumes "s = run env (constructor d) txs" "\<not> interacted env (constructor d) txs a"
  shows "getPlayerInfo s a = (0, 0, 0)
    \<and> (86400 \<le> unat now \<longrightarrow> canCheckIn s a now = Inr True)"
proof -
  have "players s a = zeroPlayer"
    using assms unregistered_zero by simp
  then show ?thesis
    by (simp add: getPlayerInfo_def canCheckIn_eq zeroPlayer_def)
qed

theorem unseen_address_witness:
  "\<not> interacted env0 (constructor deployer) [call_tx alice 86400 DailyCheckIn] bob
   \<and> getPlayerInfo checkedIn bob = (0, 0, 0)
   \<and> 86400 \<le> unat (1700000000 :: uint256)
   \<and> canCheckIn checkedIn bob 1700000000 = Inr True"
proof -
  have new: "\<not> interacted env0 (constructor deployer) [call_tx alice 86400 DailyCheckIn] bob"
    by (simp add: ev registers_def)
  have late: "86400 \<le> unat (1700000000 :: uint256)"
    by simp
  show ?thesis
    using unseen_address [OF checkedIn_run new, where now = 1700000000] new late by simp
qed

section \<open>An account registered by a purchase\<close>

lemma others_transact:
  assumes "tx_sender t \<noteq> a"
  shows "players (transact env s t) a = players s a"
proof (cases "execute env s t")
  case (Inl e)
  then show ?thesis by (simp add: transact_def)
next
  case (Inr s')
  then have "players s' a = players s a"
    using assms
    by (cases "tx_call t")
      (auto simp: execute_def dailyCheckIn_eq buyTurns_eq playTurn_eq dropBall_eq
        withdraw_def transferOwnership_def Let_def split: if_splits option.splits)
  then show ?thesis using Inr by (simp add: transact_def)
qed

lemma others_run:
  assumes "\<forall>t \<in> set ts. tx_sender t \<noteq> a"
  shows "players (run env s ts) a = players s a"
  using assms by (induction ts arbitrary: s) (simp_all add: others_transact)

text \<open>
  C9. An account whose only interaction is a first purchase of \<open>n\<close> turns, whatever
  other senders do afterwards, at every time from 86401 (the sentinel 1 plus the
  cooldown) on: \<open>canCheckIn\<close> is true, so the purchase imposes no cooldown, and the
  account's first \<open>dailyCheckIn\<close> succeeds, grants the three free turns on top of the
  \<open>n\<close> bought and records its time. (Blocks are dated far later than 86401.)
\<close>

theorem purchase_only_account:
  assumes "s = run env (constructor d) txs"
    and "\<not> interacted env (constructor d) txs a"
    and "buyTurns s a v n = Inr s1"
    and "\<forall>t \<in> set others. tx_sender t \<noteq> a"
    and "s2 = run env s1 others"
    and "86401 \<le> unat now"
  shows "canCheckIn s2 a now = Inr True
    \<and> (\<exists>s3. dailyCheckIn s2 a now = Inr s3
          \<and> unat (availableTurns (players s3 a)) = unat n + 3
          \<and> lastCheckInTime (players s3 a) = now)"
proof -
  have zero: "players s a = zeroPlayer"
    using assms(1,2) unregistered_zero by simp
  have price: "unat n * 1000000000000000 < 2 ^ 256"
    and s1: "players s1 a = \<lparr>totalScore = 0, lastCheckInTime = 1, availableTurns = n,
                               gamesPlayed = 0\<rparr>"
    using assms(3) zero by (auto simp: buyTurns_eq zeroPlayer_def split: if_splits)
  have s2: "players s2 a = \<lparr>totalScore = 0, lastCheckInTime = 1, availableTurns = n,
                               gamesPlayed = 0\<rparr>"
    using s1 others_run [OF assms(4), of env s1] by (simp add: assms(5))
  have fits: "unat n + 3 < 2 ^ 256"
    using price by simp
  have can: "canCheckIn s2 a now = Inr True"
    using assms(6) by (simp add: canCheckIn_eq s2)
  obtain s3 where s3: "dailyCheckIn s2 a now = Inr s3"
    using fits assms(6) dailyCheckIn_succeeds_iff [of s2 a now] by (auto simp: s2)
  have "unat (availableTurns (players s3 a)) = unat n + 3
      \<and> lastCheckInTime (players s3 a) = now"
    using s3 fits unat_add_no_overflow [of n DAILY_FREE_TURNS]
    by (auto simp: dailyCheckIn_eq s2 unat_DAILY_FREE_TURNS split: if_splits)
  then show ?thesis using can s3 by blast
qed

theorem purchase_only_account_witness:
  "\<not> interacted env0 (constructor deployer) [] alice
   \<and> buyTurns fresh alice 2000000000000000 2 = Inr purchased
   \<and> 86401 \<le> unat (1700000000 :: uint256)
   \<and> canCheckIn (run env0 purchased [call_tx bob 90000 DailyCheckIn]) alice 1700000000 = Inr True
   \<and> (\<exists>s3. dailyCheckIn (run env0 purchased [call_tx bob 90000 DailyCheckIn]) alice 1700000000
           = Inr s3
         \<and> unat (availableTurns (players s3 alice)) = 5
         \<and> lastCheckInTime (players s3 alice) = 1700000000)"
proof -
  have new: "\<not> interacted env0 (constructor deployer) [] alice"
    by simp
  have buy: "buyTurns fresh alice 2000000000000000 2 = Inr purchased"
    by (simp add: purchased_def ev)
  have others: "\<forall>t \<in> set [call_tx bob 90000 DailyCheckIn]. tx_sender t \<noteq> alice"
    by (simp add: ev)
  have late: "86401 \<le> unat (1700000000 :: uint256)"
    by simp
  note spec = purchase_only_account [OF fresh_run new buy others refl late]
  have "canCheckIn (run env0 purchased [call_tx bob 90000 DailyCheckIn]) alice 1700000000
      = Inr True"
    using spec by simp
  moreover have "\<exists>s3. dailyCheckIn (run env0 purchased [call_tx bob 90000 DailyCheckIn]) alice
          1700000000 = Inr s3
      \<and> unat (availableTurns (players s3 alice)) = 5
      \<and> lastCheckInTime (players s3 alice) = 1700000000"
    using spec by auto
  ultimately show ?thesis using new buy late by simp
qed

section \<open>Successive check-ins\<close>

lemma quiet_transact:
  assumes "lastCheckInTime (players s a) \<noteq> 0"
    and "\<not> (tx_sender t = a \<and> tx_call t = DailyCheckIn \<and> \<not> isl (execute env s t))"
  shows "lastCheckInTime (players (transact env s t) a) = lastCheckInTime (players s a)"
proof (cases "execute env s t")
  case (Inl e)
  then show ?thesis by (simp add: transact_def)
next
  case (Inr s')
  then have "lastCheckInTime (players s' a) = lastCheckInTime (players s a)"
    using assms
    by (cases "tx_call t")
      (auto simp: execute_def dailyCheckIn_eq buyTurns_eq playTurn_eq dropBall_eq
        withdraw_def transferOwnership_def Let_def split: if_splits option.splits)
  then show ?thesis using Inr by (simp add: transact_def)
qed

lemma quiet_run:
  assumes "lastCheckInTime (players s a) \<noteq> 0" "quiet env a s ts"
  shows "lastCheckInTime (players (run env s ts) a) = lastCheckInTime (players s a)"
  using assms
proof (induction ts arbitrary: s)
  case Nil
  then show ?case by simp
next
  case (Cons t ts)
  have keep: "lastCheckInTime (players (transact env s t) a) = lastCheckInTime (players s a)"
    using Cons.prems by (intro quiet_transact) auto
  then have "lastCheckInTime (players (run env (transact env s t) ts) a)
      = lastCheckInTime (players (transact env s t) a)"
    using Cons.prems by (intro Cons.IH) auto
  then show ?case using keep by simp
qed

text \<open>
  C7. Two consecutive successful check-ins of an account \<open>a\<close>, at \<open>t1\<close> and then (after
  any transactions among which no check-in of \<open>a\<close> goes through) at \<open>t2\<close>: each records
  its own time as \<open>lastCheckInTime\<close>, the later time is strictly greater, and the two
  are at least 86400 apart.
\<close>

theorem successive_checkins:
  assumes "dailyCheckIn s0 a t1 = Inr s1"
    and "quiet env a s1 txs"
    and "dailyCheckIn (run env s1 txs) a t2 = Inr s2"
  shows "lastCheckInTime (players s1 a) = t1 \<and> lastCheckInTime (players s2 a) = t2
    \<and> t1 < t2 \<and> unat t1 + 86400 \<le> unat t2"
proof -
  have first: "lastCheckInTime (players s1 a) = t1" and t1: "86400 \<le> unat t1"
    using assms(1) by (auto simp: dailyCheckIn_eq split: if_splits)
  have "t1 \<noteq> 0" using t1 by auto
  then have kept: "lastCheckInTime (players (run env s1 txs) a) = t1"
    using quiet_run [of s1 a env txs] assms(2) first by simp
  have second: "lastCheckInTime (players s2 a) = t2" and gap: "unat t1 + 86400 \<le> unat t2"
    using assms(3) kept by (auto simp: dailyCheckIn_eq split: if_splits)
  have "t1 < t2"
    using gap by (simp add: word_less_nat_alt)
  then show ?thesis using first second gap by simp
qed

theorem successive_checkins_witness:
  "dailyCheckIn fresh alice 86400 = Inr checkedIn
   \<and> quiet env0 alice checkedIn [call_tx alice 86500 PlayTurn, call_tx alice 90000 DailyCheckIn]
   \<and> dailyCheckIn (run env0 checkedIn [call_tx alice 86500 PlayTurn, call_tx alice 90000 DailyCheckIn])
        alice 172800
      = Inr (run env0 checkedIn [call_tx alice 86500 PlayTurn, call_tx alice 90000 DailyCheckIn,
                call_tx alice 172800 DailyCheckIn])
   \<and> lastCheckInTime (players checkedIn alice) = 86400
   \<and> lastCheckInTime (players (run env0 checkedIn [call_tx alice 86500 PlayTurn,
        call_tx alice 90000 DailyCheckIn, call_tx alice 172800 DailyCheckIn]) alice) = 172800
   \<and> (86400 :: uint256) < 172800"
proof -
  have c1: "dailyCheckIn fresh alice 86400 = Inr checkedIn"
    by (simp add: ev)
  have q: "quiet env0 alice checkedIn [call_tx alice 86500 PlayTurn, call_tx alice 90000 DailyCheckIn]"
    by (simp add: ev)
  have c2: "dailyCheckIn (run env0 checkedIn [call_tx alice 86500 PlayTurn, call_tx alice 90000 DailyCheckIn])
        alice 172800
      = Inr (run env0 checkedIn [call_tx alice 86500 PlayTurn, call_tx alice 90000 DailyCheckIn,
                call_tx alice 172800 DailyCheckIn])"
    by (simp add: ev)
  show ?thesis
    using successive_checkins [OF c1 q c2] c1 q c2 by simp
qed

section \<open>Rejected calls\<close>

lemma dailyCheckIn_early:
  "\<not> unat (lastCheckInTime (players s a)) + 86400 \<le> unat now \<Longrightarrow> isl (dailyCheckIn s a now)"
  by (simp add: dailyCheckIn_eq)

lemma buyTurns_bad:
  "n = 0 \<or> unat v \<noteq> unat n * 1000000000000000 \<Longrightarrow> isl (buyTurns s a v n)"
  by (auto simp: buyTurns_eq)

lemma withdraw_bad: "a \<noteq> owner s \<or> balance s = 0 \<Longrightarrow> isl (withdraw env s a)"
  by (auto simp: withdraw_def)

lemma transferOwnership_bad:
  "a \<noteq> owner s \<or> newOwner = 0 \<Longrightarrow> isl (transferOwnership s a newOwner)"
  by (auto simp: transferOwnership_def)

lemma transact_isl: "isl (execute env s t) \<Longrightarrow> transact env s t = s"
  by (auto simp: transact_def split: sum.splits)

lemma execute_isl:
  "isl (dailyCheckIn s a now) \<Longrightarrow>
     isl (execute env s \<lparr>tx_sender = a, tx_value = v, tx_timestamp = now, tx_call = DailyCheckIn\<rparr>)"
  "isl (buyTurns s a v n) \<Longrightarrow>
     isl (execute env s \<lparr>tx_sender = a, tx_value = v, tx_timestamp = now, tx_call = BuyTurns n\<rparr>)"
  "isl (playTurn s a) \<Longrightarrow>
     isl (execute env s \<lparr>tx_sender = a, tx_value = v, tx_timestamp = now, tx_call = PlayTurn\<rparr>)"
  "isl (dropBall env s a x pr) \<Longrightarrow>
     isl (execute env s \<lparr>tx_sender = a, tx_value = v, tx_timestamp = now, tx_call = DropBall x pr\<rparr>)"
  "isl (withdraw env s a) \<Longrightarrow>
     isl (execute env s \<lparr>tx_sender = a, tx_value = v, tx_timestamp = now, tx_call = Withdraw\<rparr>)"
  "isl (transferOwnership s a newOwner) \<Longrightarrow>
     isl (execute env s \<lparr>tx_sender = a, tx_value = v, tx_timestamp = now,
                          tx_call = TransferOwnership newOwner\<rparr>)"
  by (simp_all add: execute_def payable_def)

text \<open>
  C4. A rejected call leaves the whole state (records, registry, owner, balance, event
  log, permissions) as it was, and each of these calls is rejected: \<open>dailyCheckIn\<close>
  before the cooldown has elapsed, \<open>buyTurns\<close> with a zero count or a payment other than
  the price, \<open>playTurn\<close> and \<open>dropBall\<close> with no turns, \<open>withdraw\<close> by someone else than
  the owner or with a zero balance, \<open>transferOwnership\<close> by someone else than the owner
  or to the zero address.
\<close>

theorem rejections_are_atomic:
  "(isl (execute env s t) \<longrightarrow> transact env s t = s)
   \<and> (\<not> unat (lastCheckInTime (players s a)) + 86400 \<le> unat now \<longrightarrow>
        isl (dailyCheckIn s a now)
        \<and> transact env s \<lparr>tx_sender = a, tx_value = v, tx_timestamp = now,
                            tx_call = DailyCheckIn\<rparr> = s)
   \<and> (n = 0 \<or> unat v \<noteq> unat n * 1000000000000000 \<longrightarrow>
        isl (buyTurns s a v n)
        \<and> transact env s \<lparr>tx_sender = a, tx_value = v, tx_timestamp = now,
                            tx_call = BuyTurns n\<rparr> = s)
   \<and> (availableTurns (players s a) = 0 \<longrightarrow>
        isl (playTurn s a) \<and> isl (dropBall env s a encryptedScore inputProof)
        \<and> transact env s \<lparr>tx_sender = a, tx_value = v, tx_timestamp = now,
                            tx_call = PlayTurn\<rparr> = s
        \<and> transact env s \<lparr>tx_sender = a, tx_value = v, tx_timestamp = now,
                            tx_call = DropBall encryptedScore inputProof\<rparr> = s)
   \<and> (a \<noteq> owner s \<or> balance s = 0 \<longrightarrow>
        isl (withdraw env s a)
        \<and> transact env s \<lparr>tx_sender = a, tx_value = v, tx_timestamp = now,
                            tx_call = Withdraw\<rparr> = s)
   \<and> (a \<noteq> owner s \<or> newOwner = 0 \<longrightarrow>
        isl (transferOwnership s a newOwner)
        \<and> transact env s \<lparr>tx_sender = a, tx_value = v, tx_timestamp = now,
                            tx_call = TransferOwnership newOwner\<rparr> = s)"
proof (intro conjI impI)
  assume "availableTurns (players s a) = 0"
  then show "isl (playTurn s a)" "isl (dropBall env s a encryptedScore inputProof)"
    by (simp_all add: playTurn_eq dropBall_eq)
  then show "transact env s \<lparr>tx_sender = a, tx_value = v, tx_timestamp = now,
                            tx_call = PlayTurn\<rparr> = s"
    "transact env s \<lparr>tx_sender = a, tx_value = v, tx_timestamp = now,
                            tx_call = DropBall encryptedScore inputProof\<rparr> = s"
    by (simp_all add: transact_isl execute_isl)
qed (simp_all add: transact_isl execute_isl dailyCheckIn_early buyTurns_bad withdraw_bad
    transferOwnership_bad)

theorem rejections_are_atomic_witness:
  "transact env0 checkedIn (call_tx alice 86401 DailyCheckIn) = checkedIn
   \<and> transact env0 checkedIn \<lparr>tx_sender = alice, tx_value = 1, tx_timestamp = 86401,
        tx_call = BuyTurns 5\<rparr> = checkedIn
   \<and> transact env0 checkedIn (call_tx bob 86401 PlayTurn) = checkedIn
   \<and> transact env0 checkedIn (call_tx bob 86401 (DropBall 50 [1])) = checkedIn
   \<and> transact env0 checkedIn (call_tx deployer 86401 Withdraw) = checkedIn
   \<and> transact env0 checkedIn (call_tx alice 86401 Withdraw) = checkedIn
   \<and> transact env0 checkedIn (call_tx deployer 86401 (TransferOwnership 0)) = checkedIn
   \<and> events (transact env0 checkedIn (call_tx alice 86401 (TransferOwnership alice)))
       = [CheckedIn alice 3 86400]"
proof -
  have "transact env0 checkedIn (call_tx alice 86401 DailyCheckIn) = checkedIn"
    using rejections_are_atomic [of env0 checkedIn "call_tx alice 86401 DailyCheckIn"
        alice 86401 0 5 50 "[1]" alice]
    by (simp add: ev)
  moreover have "transact env0 checkedIn \<lparr>tx_sender = alice, tx_value = 1, tx_timestamp = 86401,
        tx_call = BuyTurns 5\<rparr> = checkedIn"
    using rejections_are_atomic [of env0 checkedIn "call_tx alice 86401 DailyCheckIn"
        alice 86401 1 5 50 "[1]" alice]
    by simp
  moreover have "transact env0 checkedIn (call_tx bob 86401 PlayTurn) = checkedIn"
    "transact env0 checkedIn (call_tx bob 86401 (DropBall 50 [1])) = checkedIn"
    using rejections_are_atomic [of env0 checkedIn "call_tx alice 86401 DailyCheckIn"
        bob 86401 0 5 50 "[1]" alice]
    by (simp_all add: ev)
  moreover have "transact env0 checkedIn (call_tx deployer 86401 Withdraw) = checkedIn"
    "transact env0 checkedIn (call_tx deployer 86401 (TransferOwnership 0)) = checkedIn"
    using rejections_are_atomic [of env0 checkedIn "call_tx alice 86401 DailyCheckIn"
        deployer 86401 0 5 50 "[1]" 0]
    by (simp_all add: ev)
  moreover have "transact env0 checkedIn (call_tx alice 86401 Withdraw) = checkedIn"
    "events (transact env0 checkedIn (call_tx alice 86401 (TransferOwnership alice)))
       = [CheckedIn alice 3 86400]"
    using rejections_are_atomic [of env0 checkedIn "call_tx alice 86401 DailyCheckIn"
        alice 86401 0 5 50 "[1]" alice]
    by (simp_all add: ev)
  ultimately show ?thesis by simp
qed

section \<open>The registry in reachable states\<close>

lemma reachable_checkedIn: "reachable env0 checkedIn"
  unfolding checkedIn_def fresh_def by (intro reachable_run reachable.deployed)

text \<open>
  C6. In every reachable state no address is in the registry twice, and a transaction
  either leaves the registry alone or appends its sender, which happens only on a
  check-in or purchase of a sender that is not yet in the registry.
\<close>

theorem registry_holds_each_address_once:
  assumes "reachable env s"
  shows "distinct (playerAddresses s)
    \<and> (\<forall>t s'. execute env s t = Inr s' \<longrightarrow>
          playerAddresses s' = playerAddresses s
          \<or> (playerAddresses s' = playerAddresses s @ [tx_sender t]
              \<and> registers (tx_call t) \<and> tx_sender t \<notin> set (playerAddresses s)))"
proof (intro conjI allI impI)
  have inv: "registry_inv s"
    using assms by (rule reachable_registry_inv)
  then show "distinct (playerAddresses s)"
    by (simp add: registry_inv_def)
  fix t s' assume ok: "execute env s t = Inr s'"
  have reg: "lastCheckInTime (players s (tx_sender t)) = 0
      \<longleftrightarrow> tx_sender t \<notin> set (playerAddresses s)"
    using inv by (simp add: registry_inv_def)
  show "playerAddresses s' = playerAddresses s
      \<or> (playerAddresses s' = playerAddresses s @ [tx_sender t]
          \<and> registers (tx_call t) \<and> tx_sender t \<notin> set (playerAddresses s))"
    using ok reg
    by (cases "tx_call t")
      (auto simp: execute_def registers_def dailyCheckIn_eq buyTurns_eq playTurn_eq dropBall_eq
        withdraw_def transferOwnership_def Let_def split: if_splits option.splits)
qed

theorem registry_holds_each_address_once_witness:
  "reachable env0 checkedIn
   \<and> distinct (playerAddresses checkedIn)
   \<and> execute env0 checkedIn (call_tx alice 172800 DailyCheckIn)
       = Inr (run env0 checkedIn [call_tx alice 172800 DailyCheckIn])
   \<and> playerAddresses (run env0 checkedIn [call_tx alice 172800 DailyCheckIn])
       = playerAddresses checkedIn
   \<and> execute env0 checkedIn (buy_tx bob 86400 2) = Inr (run env0 checkedIn [buy_tx bob 86400 2])
   \<and> playerAddresses (run env0 checkedIn [buy_tx bob 86400 2]) = playerAddresses checkedIn @ [bob]"
proof -
  note spec = registry_holds_each_address_once [OF reachable_checkedIn]
  have again: "execute env0 checkedIn (call_tx alice 172800 DailyCheckIn)
       = Inr (run env0 checkedIn [call_tx alice 172800 DailyCheckIn])"
    by (simp add: ev)
  have buy: "execute env0 checkedIn (buy_tx bob 86400 2)
      = Inr (run env0 checkedIn [buy_tx bob 86400 2])"
    by (simp add: ev)
  have "playerAddresses (run env0 checkedIn [call_tx alice 172800 DailyCheckIn])
       = playerAddresses checkedIn"
    "playerAddresses (run env0 checkedIn [buy_tx bob 86400 2]) = playerAddresses checkedIn @ [bob]"
    by (simp_all add: ev)
  then show ?thesis
    using spec again buy reachable_checkedIn by simp
qed

text \<open>
  C10. In every reachable state, an address with \<open>availableTurns > 0\<close> or
  \<open>gamesPlayed > 0\<close> is in the registry; so it has its entry on the leaderboard, and
  \<open>getTotalPlayers\<close> counts at least the addresses that hold or have used a turn.
\<close>

theorem participants_are_registered:
  assumes "reachable env s"
    and "0 < availableTurns (players s a) \<or> 0 < gamesPlayed (players s a)"
  shows "a \<in> set (playerAddresses s)
    \<and> (\<exists>lb. getLeaderboard s = Inr lb \<and> entryOf s a \<in> set lb)
    \<and> card {b. 0 < availableTurns (players s b) \<or> 0 < gamesPlayed (players s b)}
        \<le> getTotalPlayers s"
proof -
  have inv: "registry_inv s"
    using assms(1) by (rule reachable_registry_inv)
  have "players s a \<noteq> zeroPlayer"
    using assms(2) by (auto simp: zeroPlayer_def)
  then have reg: "a \<in> set (playerAddresses s)"
    using inv by (auto simp: registry_inv_def)
  obtain lb where lb: "getLeaderboard s = Inr lb"
    "mset lb = mset (map (entryOf s) (playerAddresses s))"
    using getLeaderboard_sorted [of s] by blast
  have "set lb = entryOf s ` set (playerAddresses s)"
    using mset_eq_setD [OF lb(2)] by simp
  then have "entryOf s a \<in> set lb"
    using reg by simp
  moreover have "card {b. 0 < availableTurns (players s b) \<or> 0 < gamesPlayed (players s b)}
      \<le> getTotalPlayers s"
  proof -
    have "{b. 0 < availableTurns (players s b) \<or> 0 < gamesPlayed (players s b)}
        \<subseteq> set (playerAddresses s)"
      using inv by (auto simp: registry_inv_def zeroPlayer_def)
    then have "card {b. 0 < availableTurns (players s b) \<or> 0 < gamesPlayed (players s b)}
        \<le> card (set (playerAddresses s))"
      by (intro card_mono) simp_all
    also have "\<dots> \<le> length (playerAddresses s)"
      by (rule card_length)
    finally show ?thesis by (simp add: getTotalPlayers_def)
  qed
  ultimately show ?thesis using reg lb(1) by simp
qed

theorem participants_are_registered_witness:
  "reachable env0 checkedIn
   \<and> 0 < availableTurns (players checkedIn alice)
   \<and> alice \<in> set (playerAddresses checkedIn)
   \<and> getLeaderboard checkedIn = Inr [entryOf checkedIn alice]
   \<and> getTotalPlayers checkedIn = 1"
proof -
  have turns: "0 < availableTurns (players checkedIn alice)"
    by (simp add: ev)
  have lb: "getLeaderboard checkedIn = Inr [entryOf checkedIn alice]"
    by (simp add: getLeaderboard_def ev entryOf_def zeroEntry_def
      fillLeaderboard.simps sortInner.simps sortOuter.simps)
  have total: "getTotalPlayers checkedIn = 1"
    by (simp add: getTotalPlayers_def ev)
  show ?thesis
    using participants_are_registered [OF reachable_checkedIn, of alice] turns lb total
      reachable_checkedIn by simp
qed

end
